theory Spec2Isabelle
  imports Main "HOL-Library.AList"
begin

section \<open>Radix trie of \<^verbatim>\<open>src/utils/RadixTrie.py\<close>\<close>

text \<open>
  The development embeds the classes \<^verbatim>\<open>RadixNode\<close> and \<^verbatim>\<open>RadixTrie\<close>.

  \<^item> A node is a value of the datatype \<open>RadixNode\<close>. Nodes are only ever created inside
    \<^verbatim>\<open>RadixNode.add\<close> and attached to exactly one parent, so the object graph below the
    root is a tree and a node can hold its children by value.
  \<^item> Python compares and hashes \<^verbatim>\<open>RadixNode\<close> objects by identity (the class defines
    neither \<^verbatim>\<open>__eq__\<close> nor \<^verbatim>\<open>__hash__\<close>). The field \<open>ident\<close> is that identity: the
    allocation number of the object. The trie carries the number of the next object.
  \<^item> \<^verbatim>\<open>children\<close> is a \<^verbatim>\<open>dict\<close>; it is an association list in insertion order,
    read with \<open>map_of\<close> and written with \<open>AList.update\<close> (replace in place, else append).
    No \<^verbatim>\<open>None\<close> is ever stored as a value.
  \<^item> The field \<^verbatim>\<open>root\<close> of every node is the root object of its trie: the root is built
    with \<^verbatim>\<open>root=None\<close> and so refers to itself, every other node is built with
    \<^verbatim>\<open>root=self.root\<close>. The functions below take that root as an argument.
  \<^item> Exceptions are values of type \<open>error\<close>; nothing in the file catches one.
\<close>

datatype error = IndexError | KeyError | AssertionError

datatype RadixNode =
  RadixNode (ident: nat) (prefix: string) (is_leaf: bool) (children: "(char \<times> RadixNode) list")

fun set_prefix :: "string \<Rightarrow> RadixNode \<Rightarrow> RadixNode" where
  "set_prefix p (RadixNode i _ l cs) = RadixNode i p l cs"

fun set_is_leaf :: "bool \<Rightarrow> RadixNode \<Rightarrow> RadixNode" where
  "set_is_leaf l (RadixNode i p _ cs) = RadixNode i p l cs"

fun set_child :: "char \<Rightarrow> RadixNode \<Rightarrow> RadixNode \<Rightarrow> RadixNode" where
  "set_child k c (RadixNode i p l cs) = RadixNode i p l (AList.update k c cs)"

subsection \<open>\<^verbatim>\<open>match_prefix\<close>\<close>

text \<open>
  \<^verbatim>\<open>i\<close> counts the leading positions of \<^verbatim>\<open>zip(self.prefix, word)\<close> that hold equal
  characters; the result is \<^verbatim>\<open>(prefix[:i], prefix[i:], word[i:])\<close>.
\<close>

definition match_prefix :: "string \<Rightarrow> string \<Rightarrow> string \<times> string \<times> string" where
  "match_prefix p word =
     (let i = length (takeWhile (\<lambda>(a, b). a = b) (zip p word))
      in (take i p, drop i p, drop i word))"

subsection \<open>\<^verbatim>\<open>RadixTrie._count_nodes\<close>\<close>

text \<open>
  The filter \<^verbatim>\<open>c is not None and c != {}\<close> keeps every child: no value is \<^verbatim>\<open>None\<close>, and a
  \<^verbatim>\<open>RadixNode\<close> never equals a \<^verbatim>\<open>dict\<close>.
\<close>

fun count_nodes :: "RadixNode \<Rightarrow> nat" where
  "count_nodes (RadixNode i p l cs) = sum_list (map (\<lambda>kc. count_nodes (snd kc)) cs) + 1"

lemma count_nodes_child:
  "map_of cs k = Some c \<Longrightarrow> count_nodes c \<le> sum_list (map (\<lambda>kc. count_nodes (snd kc)) cs)"
proof (induction cs)
  case Nil
  then show ?case by simp
next
  case (Cons a cs)
  then show ?case by (cases a) (auto split: if_splits)
qed

lemma count_nodes_lookup:
  "map_of (children n) k = Some c \<Longrightarrow> count_nodes c < count_nodes n"
  using count_nodes_child [of "children n" k c] by (cases n) simp

lemma count_nodes_set_prefix [simp]: "count_nodes (set_prefix p n) = count_nodes n"
  by (cases n) simp

lemma match_prefix_shorter:
  assumes "match_prefix p word = (m, rp, rw)" and "m \<noteq> []"
  shows "length rw < length word"
proof -
  define i where "i = length (takeWhile (\<lambda>(a, b). a = b) (zip p word))"
  have "i \<le> length (zip p word)"
    unfolding i_def by (rule length_takeWhile_le)
  then have "i \<le> length word" by simp
  moreover from assms have "rw = drop i word" and "0 < i"
    by (auto simp: match_prefix_def i_def Let_def)
  ultimately show ?thesis by simp
qed

subsection \<open>\<^verbatim>\<open>RadixNode.add\<close>\<close>

text \<open>
  \<open>RadixNode_add self word is_repeating_prefix fresh\<close> returns the node as the call leaves
  it, with the number of the next object to allocate. The tests and subscripts are
  evaluated in the order of the source: \<^verbatim>\<open>word[0]\<close>, \<^verbatim>\<open>matching[0]\<close> raise
  \<^verbatim>\<open>IndexError\<close> on the empty string, \<^verbatim>\<open>self.children[matching[0]]\<close> raises
  \<^verbatim>\<open>KeyError\<close> on a missing key.
\<close>

function RadixNode_add :: "RadixNode \<Rightarrow> string \<Rightarrow> bool \<Rightarrow> nat \<Rightarrow> error + (RadixNode \<times> nat)" where
  "RadixNode_add self word is_repeating_prefix fresh =
    (if prefix self = word \<and> \<not> is_leaf self \<and> \<not> is_repeating_prefix then
       Inr (set_is_leaf True self, fresh)
     else if word = [] then Inl IndexError
     else
       (case map_of (children self) (hd word) of
          None \<Rightarrow> Inr (set_child (hd word) (RadixNode fresh word True []) self, Suc fresh)
        | Some child \<Rightarrow>
            (case match_prefix (prefix child) word of
               (matching, remaining_prefix, remaining_word) \<Rightarrow>
                 if remaining_prefix = [] then
                   (if remaining_word = [] then
                      (case RadixNode_add child matching False fresh of
                         Inl e \<Rightarrow> Inl e
                       | Inr (child', fresh') \<Rightarrow> Inr (set_child (hd word) child' self, fresh'))
                    else if matching = [] then Inl IndexError
                    else
                      (case RadixNode_add child remaining_word
                              (hd remaining_word = hd matching) fresh of
                         Inl e \<Rightarrow> Inl e
                       | Inr (child', fresh') \<Rightarrow> Inr (set_child (hd word) child' self, fresh')))
                 else if matching = [] then Inl IndexError
                 else
                   (case map_of (children self) (hd matching) of
                      None \<Rightarrow> Inl KeyError
                    | Some old \<Rightarrow>
                        (let aux_node = set_prefix remaining_prefix old;
                             new = RadixNode fresh matching False [(hd remaining_prefix, aux_node)]
                         in if remaining_word = [] then
                              Inr (set_child (hd matching) (set_is_leaf True new) self, Suc fresh)
                            else
                              (case RadixNode_add new remaining_word False (Suc fresh) of
                                 Inl e \<Rightarrow> Inl e
                               | Inr (new', fresh') \<Rightarrow>
                                   Inr (set_child (hd matching) new' self, fresh')))))))"
  by pat_completeness auto
termination
proof (relation "measures [\<lambda>(n, w, r, f). count_nodes n, \<lambda>(n, w, r, f). length w]")
  show "wf (measures [\<lambda>(n, w, r, f). count_nodes n, \<lambda>(n, w, r, f). length w])"
    by simp
qed (auto dest: count_nodes_lookup match_prefix_shorter [OF sym])

declare RadixNode_add.simps [simp del]

subsection \<open>The cache of \<^verbatim>\<open>RadixNode.find\<close>\<close>

text \<open>
  \<^verbatim>\<open>find\<close> is decorated with \<^verbatim>\<open>functools.cache\<close>: one unbounded dictionary for the
  class, never cleared by this file. Its key is built from the arguments of the call as
  they were passed: the tuple of the positional arguments, starting with \<^verbatim>\<open>self\<close>
  (hashed by identity), followed by the keyword arguments. So the key records the node,
  the word and the way \<^verbatim>\<open>loop\<close> was given: left out (\<^verbatim>\<open>is_word\<close>), by position (the
  recursive calls) or by keyword (\<^verbatim>\<open>is_sentence\<close>, \<^verbatim>\<open>possible_sentences\<close>). A call that
  raises stores nothing.
\<close>

datatype loop_arg = Omitted | Positional bool | Keyword bool

fun loop_of :: "loop_arg \<Rightarrow> bool" where
  "loop_of Omitted = False"
| "loop_of (Positional b) = b"
| "loop_of (Keyword b) = b"

type_synonym memo_key = "nat \<times> string \<times> loop_arg"
type_synonym memo = "(memo_key \<times> int) list"

text \<open>
  The outcome of a call: \<open>None\<close> when the call does not return within the given depth of
  recursion, else the exception or the count, with the cache as the call leaves it.
\<close>

type_synonym outcome = "((error + int) \<times> memo) option"

fun store :: "memo_key \<Rightarrow> outcome \<Rightarrow> outcome" where
  "store key None = None"
| "store key (Some (Inl e, m)) = Some (Inl e, m)"
| "store key (Some (Inr r, m)) = Some (Inr r, AList.update key r m)"

subsection \<open>\<^verbatim>\<open>RadixNode.find\<close>\<close>

text \<open>
  \<open>explore\<close> is the loop \<^verbatim>\<open>for child in children\<close> of \<^verbatim>\<open>find\<close> over the list of
  candidates, an entry \<open>None\<close> being Python's \<^verbatim>\<open>None\<close>; \<open>call\<close> is the recursive call
  \<^verbatim>\<open>child.find(remaining_word, loop)\<close>.
\<close>

fun explore ::
  "(RadixNode \<Rightarrow> string \<Rightarrow> memo \<Rightarrow> outcome) \<Rightarrow> string \<Rightarrow> RadixNode option list \<Rightarrow>
     int \<Rightarrow> memo \<Rightarrow> outcome" where
  "explore call word [] result m = Some (Inr result, m)"
| "explore call word (None # rest) result m = Some (Inl AssertionError, m)"
| "explore call word (Some child # rest) result m =
     (case match_prefix (prefix child) word of
        (matching, remaining_prefix, remaining_word) \<Rightarrow>
          if remaining_prefix = [] then
            (if remaining_word = [] then
               explore call word rest (result + (if is_leaf child then 1 else 0)) m
             else
               (case call child remaining_word m of
                  None \<Rightarrow> None
                | Some (Inl e, m') \<Rightarrow> Some (Inl e, m')
                | Some (Inr r, m') \<Rightarrow> explore call word rest (result + r) m'))
          else explore call word rest result m)"

text \<open>
  \<open>RadixNode_find fuel root self word la m\<close> is the call \<^verbatim>\<open>self.find(word, ...)\<close> through
  the cache \<open>m\<close>, where \<open>root\<close> is \<^verbatim>\<open>self.root\<close> and \<open>la\<close> says how \<^verbatim>\<open>loop\<close> was
  passed. \<open>fuel\<close> bounds the depth of nested calls of \<^verbatim>\<open>find\<close>: each call spends one
  unit, and a call that would go deeper has outcome \<open>None\<close>. A call that has outcome
  \<open>None\<close> for every amount of fuel recurses without end (CPython stops it with
  \<^verbatim>\<open>RecursionError\<close> once the interpreter's stack limit is reached).
\<close>

fun RadixNode_find ::
  "nat \<Rightarrow> RadixNode \<Rightarrow> RadixNode \<Rightarrow> string \<Rightarrow> loop_arg \<Rightarrow> memo \<Rightarrow> outcome" where
  "RadixNode_find 0 root self word la m = None"
| "RadixNode_find (Suc fuel) root self word la m =
     (case map_of m (ident self, word, la) of
        Some r \<Rightarrow> Some (Inr r, m)
      | None \<Rightarrow>
          store (ident self, word, la)
            (if word = [] then Some (Inl IndexError, m)
             else
               (case map_of (children self) (hd word) of
                  None \<Rightarrow>
                    if \<not> is_leaf self then Some (Inr 0, m)
                    else RadixNode_find fuel root root word (Positional (loop_of la)) m
                | Some first \<Rightarrow>
                    explore (\<lambda>child w. RadixNode_find fuel root child w (Positional (loop_of la)))
                      word
                      (Some first #
                         (if is_leaf self \<and> loop_of la
                          then [map_of (children root) (hd word)] else []))
                      0 m)))"

declare RadixNode_find.simps(2) [simp del]

subsection \<open>\<^verbatim>\<open>RadixTrie\<close>\<close>

text \<open>
  The trie owns its root. \<open>fresh\<close> is the number of the next node object, \<open>memo\<close> the
  cache of \<^verbatim>\<open>find\<close>.
\<close>

record RadixTrie =
  root :: RadixNode
  fresh :: nat
  memo :: memo

definition RadixTrie_init :: RadixTrie where
  "RadixTrie_init = \<lparr>root = RadixNode 0 [] False [], fresh = 1, memo = []\<rparr>"

definition RadixTrie_add :: "RadixTrie \<Rightarrow> string \<Rightarrow> error + RadixTrie" where
  "RadixTrie_add t word =
     (case RadixNode_add (root t) word False (fresh t) of
        Inl e \<Rightarrow> Inl e
      | Inr (r, f) \<Rightarrow> Inr (t\<lparr>root := r, fresh := f\<rparr>))"

fun add_many :: "RadixTrie \<Rightarrow> string list \<Rightarrow> error + RadixTrie" where
  "add_many t [] = Inr t"
| "add_many t (word # words) =
     (case RadixTrie_add t word of
        Inl e \<Rightarrow> Inl e
      | Inr t' \<Rightarrow> add_many t' words)"

text \<open>
  A query returns its value, an exception or nothing, and the trie with the cache as the
  query leaves it.
\<close>

fun answer :: "(int \<Rightarrow> 'a) \<Rightarrow> RadixTrie \<Rightarrow> outcome \<Rightarrow> ((error + 'a) \<times> RadixTrie) option" where
  "answer f t None = None"
| "answer f t (Some (Inl e, m)) = Some (Inl e, t\<lparr>memo := m\<rparr>)"
| "answer f t (Some (Inr r, m)) = Some (Inr (f r), t\<lparr>memo := m\<rparr>)"

definition is_word :: "nat \<Rightarrow> RadixTrie \<Rightarrow> string \<Rightarrow> ((error + bool) \<times> RadixTrie) option" where
  "is_word fuel t word =
     answer (\<lambda>r. r > 0) t (RadixNode_find fuel (root t) (root t) word Omitted (memo t))"

definition is_sentence :: "nat \<Rightarrow> RadixTrie \<Rightarrow> string \<Rightarrow> ((error + bool) \<times> RadixTrie) option" where
  "is_sentence fuel t string =
     answer (\<lambda>r. r > 0) t (RadixNode_find fuel (root t) (root t) string (Keyword True) (memo t))"

definition possible_sentences ::
  "nat \<Rightarrow> RadixTrie \<Rightarrow> string \<Rightarrow> ((error + int) \<times> RadixTrie) option" where
  "possible_sentences fuel t string =
     answer (\<lambda>r. r) t (RadixNode_find fuel (root t) (root t) string (Keyword True) (memo t))"

definition size_trie :: "RadixTrie \<Rightarrow> nat" where
  "size_trie t = count_nodes (root t)"

text \<open>
  The trie after the call \<^verbatim>\<open>add(word)\<close>, whether the call returned or raised. A call that
  raises leaves the trie as it was: every subscript that can raise is evaluated before the
  first assignment of its call, the calls on the way down have assigned nothing, and the
  call that case 4 makes after its assignments meets case 1 or case 2 only (lemma
  \<open>add_after_split_returns\<close>). On a well-formed trie the only call that raises is the
  one for the empty word at a root that is a leaf (lemma \<open>RadixTrie_add_raises\<close>).
\<close>

definition after_add :: "RadixTrie \<Rightarrow> string \<Rightarrow> RadixTrie" where
  "after_add t word = (case RadixTrie_add t word of Inl e \<Rightarrow> t | Inr t' \<Rightarrow> t')"

text \<open>The trie reached from the empty one by the calls \<^verbatim>\<open>add(w)\<close> for \<open>w\<close> in \<open>words\<close>, in order.\<close>

definition adds :: "string list \<Rightarrow> RadixTrie" where
  "adds words = foldl after_add RadixTrie_init words"

subsection \<open>The structure of a trie\<close>

text \<open>
  The keys of a node's \<^verbatim>\<open>children\<close> are characters by their type. \<open>inv_node\<close> says of
  a node and of every node below it: no key occurs twice, every child has a prefix that
  is not empty, and every child is stored under the first character of its prefix.
  \<open>trie_inv\<close> adds that the prefix of the root is empty.
\<close>

fun inv_node :: "RadixNode \<Rightarrow> bool" where
  "inv_node (RadixNode i p l cs) =
     (distinct (map fst cs) \<and>
      list_all (\<lambda>kc. prefix (snd kc) \<noteq> [] \<and> fst kc = hd (prefix (snd kc)) \<and> inv_node (snd kc)) cs)"

definition trie_inv :: "RadixTrie \<Rightarrow> bool" where
  "trie_inv t = (prefix (root t) = [] \<and> inv_node (root t))"

definition child_ok :: "char \<times> RadixNode \<Rightarrow> bool" where
  "child_ok kc = (prefix (snd kc) \<noteq> [] \<and> fst kc = hd (prefix (snd kc)) \<and> inv_node (snd kc))"

subsection \<open>The states of a trie\<close>

text \<open>
  A call of \<^verbatim>\<open>find\<close> that raises stores nothing, and the call for the empty word always
  raises, so no key of the cache holds the empty word: \<open>memo_ok\<close>. The states of
  \<open>reachable\<close> are those that the methods of \<^verbatim>\<open>RadixTrie\<close> lead to from the empty trie:
  calls of \<^verbatim>\<open>add\<close>, and queries that return or raise.
\<close>

definition memo_ok :: "memo \<Rightarrow> bool" where
  "memo_ok m = list_all (\<lambda>kv. fst (snd (fst kv)) \<noteq> []) m"

inductive reachable :: "RadixTrie \<Rightarrow> bool" where
  reachable_init: "reachable RadixTrie_init"
| reachable_add: "reachable t \<Longrightarrow> reachable (after_add t word)"
| reachable_is_word: "reachable t \<Longrightarrow> is_word fuel t word = Some (v, t') \<Longrightarrow> reachable t'"
| reachable_is_sentence:
    "reachable t \<Longrightarrow> is_sentence fuel t string = Some (v, t') \<Longrightarrow> reachable t'"
| reachable_possible_sentences:
    "reachable t \<Longrightarrow> possible_sentences fuel t string = Some (n, t') \<Longrightarrow> reachable t'"

section \<open>More fuel never changes an outcome\<close>

text \<open>
  A call that returns (or raises) within some depth of recursion has the same outcome
  for every larger bound. So an outcome \<open>Some x\<close> below is the outcome of the call.
\<close>

lemma explore_mono:
  assumes call: "\<And>c w m r. call c w m = Some r \<Longrightarrow> call' c w m = Some r"
  shows "explore call word cs res m = Some r \<Longrightarrow> explore call' word cs res m = Some r"
proof (induction cs arbitrary: res m)
  case Nil
  then show ?case by simp
next
  case (Cons c cs)
  show ?case
  proof (cases c)
    case None
    with Cons.prems show ?thesis by simp
  next
    case (Some child)
    obtain mt rp rw where mp: "match_prefix (prefix child) word = (mt, rp, rw)"
      by (cases "match_prefix (prefix child) word") auto
    show ?thesis
    proof (cases "rp = []")
      case False
      with Cons.prems Some mp have "explore call word cs res m = Some r" by simp
      then have "explore call' word cs res m = Some r" by (rule Cons.IH)
      with False Some mp show ?thesis by simp
    next
      case True
      note rp = True
      show ?thesis
      proof (cases "rw = []")
        case True
        with Cons.prems Some mp rp
        have "explore call word cs (res + (if is_leaf child then 1 else 0)) m = Some r"
          by simp
        then have "explore call' word cs (res + (if is_leaf child then 1 else 0)) m = Some r"
          by (rule Cons.IH)
        with True Some mp rp show ?thesis by simp
      next
        case False
        with Cons.prems Some mp rp obtain r0 where r0: "call child rw m = Some r0"
          by (cases "call child rw m") auto
        then have r0': "call' child rw m = Some r0" by (rule call)
        obtain res0 m0 where r0_eq: "r0 = (res0, m0)" by (cases r0)
        show ?thesis
        proof (cases res0)
          case (Inl e)
          with Cons.prems Some mp rp False r0 r0' r0_eq show ?thesis by auto
        next
          case (Inr n)
          with Cons.prems Some mp rp False r0 r0_eq
          have "explore call word cs (res + n) m0 = Some r" by simp
          then have "explore call' word cs (res + n) m0 = Some r" by (rule Cons.IH)
          with Inr Some mp rp False r0' r0_eq show ?thesis by simp
        qed
      qed
    qed
  qed
qed

lemma store_Some: "store key out = Some r \<Longrightarrow> \<exists>r0. out = Some r0"
  by (cases out) auto

lemma RadixNode_find_Suc:
  "RadixNode_find fuel rt self word la m = Some r \<Longrightarrow>
   RadixNode_find (Suc fuel) rt self word la m = Some r"
  supply [simp] = RadixNode_find.simps(2)
proof (induction fuel arbitrary: self word la m r)
  case 0
  then show ?case by simp
next
  case (Suc fuel)
  show ?case
  proof (cases "map_of m (ident self, word, la)")
    case (Some a)
    with Suc.prems show ?thesis by simp
  next
    case None
    note miss = None
    show ?thesis
    proof (cases "word = []")
      case True
      with Suc.prems miss show ?thesis by auto
    next
      case False
      note nonempty = False
      show ?thesis
      proof (cases "map_of (children self) (hd word)")
        case None
        show ?thesis
        proof (cases "is_leaf self")
          case False
          with Suc.prems miss nonempty None show ?thesis by simp
        next
          case True
          with Suc.prems miss nonempty None
          have st: "store (ident self, word, la)
                  (RadixNode_find fuel rt rt word (Positional (loop_of la)) m) = Some r"
            by simp
          then obtain r0 where r0: "RadixNode_find fuel rt rt word (Positional (loop_of la)) m = Some r0"
            by (blast dest: store_Some)
          then have "RadixNode_find (Suc fuel) rt rt word (Positional (loop_of la)) m = Some r0"
            by (rule Suc.IH)
          with st r0 miss nonempty None True show ?thesis
            by (simp del: RadixNode_find.simps add: RadixNode_find.simps(2) [of "Suc fuel" rt self])
        qed
      next
        case (Some first)
        define cands where "cands = Some first #
                         (if is_leaf self \<and> loop_of la
                          then [map_of (children rt) (hd word)] else [])"
        from Suc.prems miss nonempty Some
        have st: "store (ident self, word, la)
                  (explore (\<lambda>child w. RadixNode_find fuel rt child w (Positional (loop_of la)))
                      word cands 0 m) = Some r"
          by (simp add: cands_def)
        then obtain r0 where r0: "explore (\<lambda>child w. RadixNode_find fuel rt child w (Positional (loop_of la)))
                      word cands 0 m = Some r0"
          by (blast dest: store_Some)
        have "explore (\<lambda>child w. RadixNode_find (Suc fuel) rt child w (Positional (loop_of la)))
                      word cands 0 m = Some r0"
          by (rule explore_mono [OF _ r0]) (rule Suc.IH)
        with st r0 miss nonempty Some show ?thesis
          by (simp del: RadixNode_find.simps add: RadixNode_find.simps(2) [of "Suc fuel" rt self] cands_def)
      qed
    qed
  qed
qed

lemma RadixNode_find_more_fuel:
  "RadixNode_find fuel rt self word la m = Some r \<Longrightarrow>
   RadixNode_find (fuel + k) rt self word la m = Some r"
  by (induction k) (simp_all del: RadixNode_find.simps add: RadixNode_find_Suc)

lemma answer_Some: "answer f t out = Some x \<Longrightarrow> \<exists>r. out = Some r"
  by (cases out) auto

lemma answer_more_fuel:
  assumes "answer f t (RadixNode_find fuel rt self word la m) = Some x"
  shows "answer f t (RadixNode_find (fuel + k) rt self word la m) = Some x"
proof -
  from assms obtain r where r: "RadixNode_find fuel rt self word la m = Some r"
    by (blast dest: answer_Some)
  then have "RadixNode_find (fuel + k) rt self word la m = Some r"
    by (rule RadixNode_find_more_fuel)
  with assms r show ?thesis by simp
qed

lemma is_word_more_fuel:
  "is_word fuel t word = Some x \<Longrightarrow> is_word (fuel + k) t word = Some x"
  unfolding is_word_def by (rule answer_more_fuel)

lemma is_sentence_more_fuel:
  "is_sentence fuel t string = Some x \<Longrightarrow> is_sentence (fuel + k) t string = Some x"
  unfolding is_sentence_def by (rule answer_more_fuel)

lemma possible_sentences_more_fuel:
  "possible_sentences fuel t string = Some x \<Longrightarrow> possible_sentences (fuel + k) t string = Some x"
  unfolding possible_sentences_def by (rule answer_more_fuel)

text \<open>The same for the value alone, without the cache that the query leaves.\<close>

lemma is_word_value:
  assumes "map_option fst (is_word fuel t word) = Some v"
  shows "map_option fst (is_word (fuel + k) t word) = Some v"
proof -
  from assms obtain x where "is_word fuel t word = Some x" and "fst x = v" by auto
  then show ?thesis by (simp add: is_word_more_fuel)
qed

lemma is_sentence_value:
  assumes "map_option fst (is_sentence fuel t string) = Some v"
  shows "map_option fst (is_sentence (fuel + k) t string) = Some v"
proof -
  from assms obtain x where "is_sentence fuel t string = Some x" and "fst x = v" by auto
  then show ?thesis by (simp add: is_sentence_more_fuel)
qed

lemma possible_sentences_value:
  assumes "map_option fst (possible_sentences fuel t string) = Some v"
  shows "map_option fst (possible_sentences (fuel + k) t string) = Some v"
proof -
  from assms obtain x where "possible_sentences fuel t string = Some x" and "fst x = v" by auto
  then show ?thesis by (simp add: possible_sentences_more_fuel)
qed

section \<open>Insertion keeps the structure\<close>

lemma inv_node_iff:
  "inv_node n = (distinct (map fst (children n)) \<and> list_all child_ok (children n))"
  by (cases n) (simp add: child_ok_def [abs_def])

lemma list_all_update:
  "P (k, v) \<Longrightarrow> list_all P al \<Longrightarrow> list_all P (AList.update k v al)"
  by (induction al) auto

lemma children_set_child [simp]: "children (set_child k c n) = AList.update k c (children n)"
  by (cases n) simp

lemma prefix_set_child [simp]: "prefix (set_child k c n) = prefix n"
  by (cases n) simp

lemma children_set_is_leaf [simp]: "children (set_is_leaf l n) = children n"
  by (cases n) simp

lemma prefix_set_is_leaf [simp]: "prefix (set_is_leaf l n) = prefix n"
  by (cases n) simp

lemma children_set_prefix [simp]: "children (set_prefix p n) = children n"
  by (cases n) simp

lemma prefix_set_prefix [simp]: "prefix (set_prefix p n) = p"
  by (cases n) simp

lemma inv_set_is_leaf [simp]: "inv_node (set_is_leaf l n) = inv_node n"
  by (simp add: inv_node_iff)

lemma inv_set_prefix [simp]: "inv_node (set_prefix p n) = inv_node n"
  by (simp add: inv_node_iff)

lemma inv_set_child:
  assumes "inv_node n" and "inv_node c" and "prefix c \<noteq> []" and "k = hd (prefix c)"
  shows "inv_node (set_child k c n)"
  using assms by (simp add: inv_node_iff distinct_update list_all_update child_ok_def)

lemma inv_lookup:
  assumes "inv_node n" and "map_of (children n) k = Some c"
  shows "inv_node c \<and> prefix c \<noteq> [] \<and> hd (prefix c) = k"
proof -
  from assms(2) have "(k, c) \<in> set (children n)" by (rule map_of_SomeD)
  moreover from assms(1) have "list_all child_ok (children n)" by (simp add: inv_node_iff)
  ultimately have "child_ok (k, c)" by (simp add: list_all_iff)
  then show ?thesis by (simp add: child_ok_def)
qed

lemma match_prefix_Cons:
  "match_prefix (a # p) (b # w) =
     (if a = b then (case match_prefix p w of (m, rp, rw) \<Rightarrow> (a # m, rp, rw))
      else ([], a # p, b # w))"
  by (simp add: match_prefix_def Let_def)

lemma match_prefix_nonempty:
  assumes "match_prefix p word = (m, rp, rw)" and "p \<noteq> []" and "word \<noteq> []" and "hd p = hd word"
  shows "m \<noteq> [] \<and> hd m = hd word"
proof -
  from assms(2,3) obtain a p' b w' where "p = a # p'" and "word = b # w'"
    by (cases p; cases word) auto
  with assms(1,4) show ?thesis
    by (auto simp: match_prefix_Cons split: prod.splits)
qed

lemma match_prefix_hd:
  assumes "match_prefix p word = (m, rp, rw)" and "m \<noteq> []"
  shows "hd m = hd word \<and> word \<noteq> []"
proof (cases p)
  case Nil
  with assms show ?thesis by (simp add: match_prefix_def)
next
  case (Cons a p')
  show ?thesis
  proof (cases word)
    case Nil
    with assms show ?thesis by (simp add: match_prefix_def)
  next
    case (Cons b w')
    with assms \<open>p = a # p'\<close> show ?thesis
      by (auto simp: match_prefix_Cons split: prod.splits if_splits)
  qed
qed

text \<open>The cases of \<^verbatim>\<open>add\<close>, one equation each.\<close>

lemma add_mark:
  "prefix self = word \<Longrightarrow> \<not> is_leaf self \<Longrightarrow> \<not> rep \<Longrightarrow>
   RadixNode_add self word rep f = Inr (set_is_leaf True self, f)"
  by (subst RadixNode_add.simps) auto

lemma add_new_child:
  "\<not> (prefix self = word \<and> \<not> is_leaf self \<and> \<not> rep) \<Longrightarrow> word \<noteq> [] \<Longrightarrow>
   map_of (children self) (hd word) = None \<Longrightarrow>
   RadixNode_add self word rep f =
     Inr (set_child (hd word) (RadixNode f word True []) self, Suc f)"
  by (subst RadixNode_add.simps) auto

lemma add_descend_end:
  "\<not> (prefix self = word \<and> \<not> is_leaf self \<and> \<not> rep) \<Longrightarrow> word \<noteq> [] \<Longrightarrow>
   map_of (children self) (hd word) = Some child \<Longrightarrow>
   match_prefix (prefix child) word = (m, [], []) \<Longrightarrow>
   RadixNode_add self word rep f =
     (case RadixNode_add child m False f of
        Inl e \<Rightarrow> Inl e
      | Inr (child', f') \<Rightarrow> Inr (set_child (hd word) child' self, f'))"
  by (subst RadixNode_add.simps) auto

lemma add_descend:
  "\<not> (prefix self = word \<and> \<not> is_leaf self \<and> \<not> rep) \<Longrightarrow> word \<noteq> [] \<Longrightarrow>
   map_of (children self) (hd word) = Some child \<Longrightarrow>
   match_prefix (prefix child) word = (m, [], rw) \<Longrightarrow> rw \<noteq> [] \<Longrightarrow> m \<noteq> [] \<Longrightarrow>
   RadixNode_add self word rep f =
     (case RadixNode_add child rw (hd rw = hd m) f of
        Inl e \<Rightarrow> Inl e
      | Inr (child', f') \<Rightarrow> Inr (set_child (hd word) child' self, f'))"
  by (subst RadixNode_add.simps) auto

lemma add_split_end:
  "\<not> (prefix self = word \<and> \<not> is_leaf self \<and> \<not> rep) \<Longrightarrow> word \<noteq> [] \<Longrightarrow>
   map_of (children self) (hd word) = Some child \<Longrightarrow>
   match_prefix (prefix child) word = (m, rp, []) \<Longrightarrow> rp \<noteq> [] \<Longrightarrow> m \<noteq> [] \<Longrightarrow>
   map_of (children self) (hd m) = Some old \<Longrightarrow>
   RadixNode_add self word rep f =
     Inr (set_child (hd m)
            (RadixNode f m True [(hd rp, set_prefix rp old)]) self, Suc f)"
  by (subst RadixNode_add.simps) auto

lemma add_split:
  "\<not> (prefix self = word \<and> \<not> is_leaf self \<and> \<not> rep) \<Longrightarrow> word \<noteq> [] \<Longrightarrow>
   map_of (children self) (hd word) = Some child \<Longrightarrow>
   match_prefix (prefix child) word = (m, rp, rw) \<Longrightarrow> rp \<noteq> [] \<Longrightarrow> m \<noteq> [] \<Longrightarrow>
   map_of (children self) (hd m) = Some old \<Longrightarrow> rw \<noteq> [] \<Longrightarrow>
   RadixNode_add self word rep f =
     (case RadixNode_add (RadixNode f m False [(hd rp, set_prefix rp old)]) rw False (Suc f) of
        Inl e \<Rightarrow> Inl e
      | Inr (new', f') \<Rightarrow> Inr (set_child (hd m) new' self, f'))"
  by (subst RadixNode_add.simps) auto


lemma inv_node_split:
  assumes "inv_node old" and "rp \<noteq> []"
  shows "inv_node (RadixNode f m l [(hd rp, set_prefix rp old)])"
  using assms by simp

lemma RadixNode_add_inv:
  "inv_node self \<Longrightarrow> word \<noteq> [] \<Longrightarrow>
   \<exists>self' f'. RadixNode_add self word rep f = Inr (self', f') \<and>
      inv_node self' \<and> prefix self' = prefix self"
proof (induction self word rep f rule: RadixNode_add.induct)
  case (1 self word rep f)
  note inv = "1.prems"(1) and ne = "1.prems"(2)
  show ?case
  proof (cases "prefix self = word \<and> \<not> is_leaf self \<and> \<not> rep")
    case True
    with inv show ?thesis by (simp add: add_mark)
  next
    case c1: False
    show ?thesis
    proof (cases "map_of (children self) (hd word)")
      case None
      have "inv_node (set_child (hd word) (RadixNode f word True []) self)"
        using inv ne by (intro inv_set_child) simp_all
      with c1 ne None show ?thesis by (simp add: add_new_child)
    next
      case (Some child)
      from inv_lookup [OF inv Some]
      have ch: "inv_node child" "prefix child \<noteq> []" "hd (prefix child) = hd word"
        by simp_all
      obtain m rp rw where mp: "match_prefix (prefix child) word = (m, rp, rw)"
        by (cases "match_prefix (prefix child) word") auto
      from match_prefix_nonempty [OF mp ch(2) ne ch(3)]
      have m: "m \<noteq> []" "hd m = hd word" by simp_all
      have put: "inv_node (set_child (hd word) c' self) \<and> prefix (set_child (hd word) c' self) = prefix self"
        if "inv_node c'" and "prefix c' \<noteq> []" and "hd (prefix c') = hd word" for c'
        using inv that by (simp add: inv_set_child)
      show ?thesis
      proof (cases "rp = []")
        case True
        note rp = True
        show ?thesis
        proof (cases "rw = []")
          case True
          have "\<exists>c' f'. RadixNode_add child m False f = Inr (c', f') \<and>
                  inv_node c' \<and> prefix c' = prefix child"
            by (rule "1.IH"(1) [OF c1 ne Some mp [symmetric] refl rp True ch(1) m(1)])
          then obtain c' f' where c': "RadixNode_add child m False f = Inr (c', f')"
            "inv_node c'" "prefix c' = prefix child" by blast
          from mp rp True have "RadixNode_add self word rep f =
             (case RadixNode_add child m False f of
                Inl e \<Rightarrow> Inl e
              | Inr (child', f') \<Rightarrow> Inr (set_child (hd word) child' self, f'))"
            by (intro add_descend_end [OF c1 ne Some]) simp
          with c'(1) have "RadixNode_add self word rep f = Inr (set_child (hd word) c' self, f')"
            by simp
          with put [of c'] c'(2,3) ch(2,3) show ?thesis by simp
        next
          case False
          have "\<exists>c' f'. RadixNode_add child rw (hd rw = hd m) f = Inr (c', f') \<and>
                  inv_node c' \<and> prefix c' = prefix child"
            by (rule "1.IH"(2) [OF c1 ne Some mp [symmetric] refl rp False m(1) ch(1) False])
          then obtain c' f' where c': "RadixNode_add child rw (hd rw = hd m) f = Inr (c', f')"
            "inv_node c'" "prefix c' = prefix child" by blast
          from mp rp have "RadixNode_add self word rep f =
             (case RadixNode_add child rw (hd rw = hd m) f of
                Inl e \<Rightarrow> Inl e
              | Inr (child', f') \<Rightarrow> Inr (set_child (hd word) child' self, f'))"
            by (intro add_descend [OF c1 ne Some _ False m(1)]) simp
          with c'(1) have "RadixNode_add self word rep f = Inr (set_child (hd word) c' self, f')"
            by simp
          with put [of c'] c'(2,3) ch(2,3) show ?thesis by simp
        qed
      next
        case False
        note rp = False
        from Some m(2) have old: "map_of (children self) (hd m) = Some child" by simp
        have new: "inv_node (RadixNode f m l [(hd rp, set_prefix rp child)])" for l
          using ch(1) rp by (rule inv_node_split)
        show ?thesis
        proof (cases "rw = []")
          case True
          from mp True have "RadixNode_add self word rep f =
             Inr (set_child (hd m) (RadixNode f m True [(hd rp, set_prefix rp child)]) self, Suc f)"
            by (intro add_split_end [OF c1 ne Some _ rp m(1) old]) simp
          with put [of "RadixNode f m True [(hd rp, set_prefix rp child)]"] new m
          show ?thesis by simp
        next
          case False
          have "\<exists>n' f'. RadixNode_add (RadixNode f m False [(hd rp, set_prefix rp child)]) rw False (Suc f)
                    = Inr (n', f') \<and> inv_node n' \<and>
                  prefix n' = prefix (RadixNode f m False [(hd rp, set_prefix rp child)])"
            by (rule "1.IH"(3) [OF c1 ne Some mp [symmetric] refl rp m(1) old refl refl False new False])
          then obtain n' f' where n':
            "RadixNode_add (RadixNode f m False [(hd rp, set_prefix rp child)]) rw False (Suc f) = Inr (n', f')"
            "inv_node n'" "prefix n' = m" by auto
          have "RadixNode_add self word rep f =
             (case RadixNode_add (RadixNode f m False [(hd rp, set_prefix rp child)]) rw False (Suc f) of
                Inl e \<Rightarrow> Inl e
              | Inr (new', f') \<Rightarrow> Inr (set_child (hd m) new' self, f'))"
            by (rule add_split [OF c1 ne Some mp rp m(1) old False])
          with n'(1) have "RadixNode_add self word rep f = Inr (set_child (hd m) n' self, f')"
            by simp
          with put [of n'] n'(2,3) m show ?thesis by simp
        qed
      qed
    qed
  qed
qed

lemma RadixTrie_add_inv:
  assumes "trie_inv t"
  shows "trie_inv (after_add t word)"
proof (cases "word = []")
  case True
  show ?thesis
  proof (cases "is_leaf (root t)")
    case True
    with assms \<open>word = []\<close> have "RadixNode_add (root t) word False (fresh t) = Inl IndexError"
      by (subst RadixNode_add.simps) (simp add: trie_inv_def)
    with assms show ?thesis by (simp add: after_add_def RadixTrie_add_def)
  next
    case False
    with assms \<open>word = []\<close>
    have "RadixNode_add (root t) word False (fresh t) = Inr (set_is_leaf True (root t), fresh t)"
      by (intro add_mark) (simp_all add: trie_inv_def)
    with assms show ?thesis by (simp add: after_add_def RadixTrie_add_def trie_inv_def)
  qed
next
  case False
  from assms have "inv_node (root t)" by (simp add: trie_inv_def)
  from RadixNode_add_inv [OF this False, of False "fresh t"] assms
  show ?thesis by (auto simp: after_add_def RadixTrie_add_def trie_inv_def)
qed

text \<open>
  Where \<^verbatim>\<open>add\<close> raises. The two remainders of \<^verbatim>\<open>match_prefix\<close> start with different
  characters, so the call that case 4 makes on the node it has built finds no child for the
  rest of the word: it returns. On a well-formed trie the only exception is the
  \<^verbatim>\<open>IndexError\<close> of \<^verbatim>\<open>word[0]\<close> for the empty word at a root that is a leaf, raised
  before any assignment.
\<close>

lemma match_prefix_diverge:
  "match_prefix p word = (m, rp, rw) \<Longrightarrow> rp \<noteq> [] \<Longrightarrow> rw \<noteq> [] \<Longrightarrow> hd rp \<noteq> hd rw"
proof (induction p arbitrary: word m)
  case Nil
  then show ?case by (simp add: match_prefix_def)
next
  case (Cons a p)
  show ?case
  proof (cases word)
    case Nil
    with Cons.prems show ?thesis by (simp add: match_prefix_def)
  next
    case (Cons b w)
    show ?thesis
    proof (cases "a = b")
      case True
      with Cons.prems \<open>word = b # w\<close> obtain m' where "match_prefix p w = (m', rp, rw)"
        by (auto simp: match_prefix_Cons split: prod.splits)
      then show ?thesis using Cons.prems(2,3) by (rule Cons.IH)
    next
      case False
      with Cons.prems \<open>word = b # w\<close> show ?thesis by (auto simp: match_prefix_Cons)
    qed
  qed
qed

lemma add_after_split_returns:
  assumes "rw \<noteq> []" and "hd rp \<noteq> hd rw"
  shows "\<exists>x. RadixNode_add (RadixNode f m False [(hd rp, aux)]) rw False f' = Inr x"
  using assms by (subst RadixNode_add.simps) auto

lemma RadixTrie_add_raises:
  assumes "trie_inv t" and "RadixTrie_add t word = Inl e"
  shows "word = [] \<and> is_leaf (root t) \<and> e = IndexError"
proof (cases "word = []")
  case True
  with assms show ?thesis
    by (auto simp: RadixTrie_add_def trie_inv_def RadixNode_add.simps [of "root t"]
        split: if_splits)
next
  case False
  from assms(1) have "inv_node (root t)" by (simp add: trie_inv_def)
  from RadixNode_add_inv [OF this False, of False "fresh t"] assms(2)
  show ?thesis by (auto simp: RadixTrie_add_def)
qed

lemma add_many_foldl:
  "add_many t words = Inr t' \<Longrightarrow> foldl after_add t words = t'"
  by (induction words arbitrary: t) (auto simp: after_add_def split: sum.splits)

lemma add_many_adds: "add_many RadixTrie_init words = Inr t \<Longrightarrow> adds words = t"
  unfolding adds_def by (rule add_many_foldl)

lemma foldl_after_add_inv: "trie_inv t \<Longrightarrow> trie_inv (foldl after_add t words)"
  by (induction words arbitrary: t) (simp_all add: RadixTrie_add_inv)

section \<open>The cache\<close>

lemma value_store [simp]: "map_option fst (store key out) = map_option fst out"
  by (cases "(key, out)" rule: store.cases) simp_all

lemma memo_ok_miss:
  assumes "memo_ok m"
  shows "map_of m (i, [], la) = None"
proof (rule ccontr)
  assume "map_of m (i, [], la) \<noteq> None"
  then obtain r where "map_of m (i, [], la) = Some r" by blast
  then have "((i, [], la), r) \<in> set m" by (rule map_of_SomeD)
  with assms show False by (auto simp: memo_ok_def list_all_iff)
qed

lemma memo_ok_update:
  "memo_ok m \<Longrightarrow> word \<noteq> [] \<Longrightarrow> memo_ok (AList.update (i, word, la) r m)"
  unfolding memo_ok_def by (rule list_all_update) simp_all

lemma store_memo_ok:
  assumes "store (i, word, la) out = Some x" and "word \<noteq> []"
    and "\<And>y. out = Some y \<Longrightarrow> memo_ok (snd y)"
  shows "memo_ok (snd x)"
proof -
  from assms(1) obtain y where y: "out = Some y" by (blast dest: store_Some)
  then have ok: "memo_ok (snd y)" by (rule assms(3))
  obtain res m' where "y = (res, m')" by (cases y)
  with assms(1,2) y ok show ?thesis
    by (cases res) (auto simp: memo_ok_update)
qed

lemma explore_memo_ok:
  assumes call: "\<And>c w m y. memo_ok m \<Longrightarrow> call c w m = Some y \<Longrightarrow> memo_ok (snd y)"
  shows "memo_ok m \<Longrightarrow> explore call word cs res m = Some x \<Longrightarrow> memo_ok (snd x)"
proof (induction cs arbitrary: res m)
  case Nil
  then show ?case by auto
next
  case (Cons c cs)
  show ?case
  proof (cases c)
    case None
    with Cons.prems show ?thesis by auto
  next
    case (Some child)
    obtain mt rp rw where mp: "match_prefix (prefix child) word = (mt, rp, rw)"
      by (cases "match_prefix (prefix child) word") auto
    show ?thesis
    proof (cases "rp = [] \<and> rw \<noteq> []")
      case False
      with Cons.prems Some mp show ?thesis
        by (auto dest: Cons.IH split: if_splits)
    next
      case True
      with Cons.prems(2) Some mp obtain y where y: "call child rw m = Some y"
        by (cases "call child rw m") auto
      with Cons.prems(1) have ok: "memo_ok (snd y)" by (rule call)
      obtain r0 m0 where y_eq: "y = (r0, m0)" by (cases y)
      show ?thesis
      proof (cases r0)
        case (Inl e)
        with Cons.prems(2) Some mp True y y_eq ok show ?thesis by auto
      next
        case (Inr n)
        with Cons.prems(2) Some mp True y y_eq
        have "explore call word cs (res + n) m0 = Some x" by simp
        with ok y_eq show ?thesis by (auto dest: Cons.IH)
      qed
    qed
  qed
qed

lemma RadixNode_find_memo_ok:
  "memo_ok m \<Longrightarrow> RadixNode_find fuel rt self word la m = Some x \<Longrightarrow> memo_ok (snd x)"
proof (induction fuel arbitrary: self word la m x)
  case 0
  then show ?case by simp
next
  case (Suc fuel)
  show ?case
  proof (cases "map_of m (ident self, word, la)")
    case (Some r)
    with Suc.prems show ?thesis by (auto simp: RadixNode_find.simps(2))
  next
    case None
    note miss = None
    show ?thesis
    proof (cases "word = []")
      case True
      with Suc.prems miss show ?thesis by (auto simp: RadixNode_find.simps(2))
    next
      case False
      define body where "body =
        (case map_of (children self) (hd word) of
           None \<Rightarrow>
             if \<not> is_leaf self then Some (Inr 0, m)
             else RadixNode_find fuel rt rt word (Positional (loop_of la)) m
         | Some first \<Rightarrow>
             explore (\<lambda>child w. RadixNode_find fuel rt child w (Positional (loop_of la)))
               word
               (Some first #
                  (if is_leaf self \<and> loop_of la
                   then [map_of (children rt) (hd word)] else []))
               0 m)"
      from Suc.prems(2) miss False have st: "store (ident self, word, la) body = Some x"
        by (simp add: RadixNode_find.simps(2) body_def)
      have "memo_ok (snd y)" if "body = Some y" for y
      proof (cases "map_of (children self) (hd word)")
        case None
        with that Suc.prems(1) show ?thesis
          by (auto simp: body_def dest: Suc.IH split: if_splits)
      next
        case (Some first)
        with that have "explore (\<lambda>child w. RadixNode_find fuel rt child w (Positional (loop_of la)))
               word
               (Some first #
                  (if is_leaf self \<and> loop_of la
                   then [map_of (children rt) (hd word)] else []))
               0 m = Some y" by (simp add: body_def)
        with Suc.prems(1) show ?thesis
          by (rule explore_memo_ok [rotated]) (rule Suc.IH)
      qed
      with st False show ?thesis by (rule store_memo_ok)
    qed
  qed
qed

lemma answer_memo_ok:
  assumes "memo_ok (memo t)"
    and "answer f t (RadixNode_find fuel rt self word la (memo t)) = Some (v, t')"
  shows "memo_ok (memo t') \<and> root t' = root t \<and> fresh t' = fresh t"
proof -
  from assms(2) obtain y where y: "RadixNode_find fuel rt self word la (memo t) = Some y"
    by (blast dest: answer_Some)
  with assms(1) have "memo_ok (snd y)" by (rule RadixNode_find_memo_ok)
  with assms(2) y show ?thesis
    by (cases y; cases "fst y") auto
qed

lemma memo_after_add: "memo (after_add t word) = memo t"
  by (auto simp: after_add_def RadixTrie_add_def split: sum.splits)

lemma reachable_inv:
  "reachable t \<Longrightarrow> trie_inv t \<and> memo_ok (memo t)"
proof (induction rule: reachable.induct)
  case reachable_init
  show ?case by (simp add: trie_inv_def memo_ok_def RadixTrie_init_def)
next
  case (reachable_add t word)
  then show ?case by (simp add: RadixTrie_add_inv memo_after_add)
next
  case (reachable_is_word t fuel word v t')
  then show ?case
    unfolding is_word_def trie_inv_def by (auto dest: answer_memo_ok)
next
  case (reachable_is_sentence t fuel string v t')
  then show ?case
    unfolding is_sentence_def trie_inv_def by (auto dest: answer_memo_ok)
next
  case (reachable_possible_sentences t fuel string n t')
  then show ?case
    unfolding possible_sentences_def trie_inv_def by (auto dest: answer_memo_ok)
qed

lemma reachable_adds: "reachable (adds words)"
proof -
  have "reachable (foldl after_add t words)" if "reachable t" for t
    using that by (induction words arbitrary: t) (simp_all add: reachable_add)
  then show ?thesis unfolding adds_def by (simp add: reachable_init)
qed

lemma empty_word_IndexError:
  "memo_ok m \<Longrightarrow> RadixNode_find (Suc fuel) rt n [] la m = Some (Inl IndexError, m)"
  by (simp add: RadixNode_find.simps(2) memo_ok_miss)

section \<open>When a query returns\<close>

text \<open>
  On a well-formed trie whose root is no leaf, every call of \<^verbatim>\<open>find\<close> returns or raises
  within a depth of recursion of twice the length of the word plus two: a call at the root
  goes down to a child with a shorter word, a call elsewhere does the same or hands the
  word to the root once.
\<close>

lemma match_prefix_full:
  assumes "match_prefix p word = (m, [], rw)"
  shows "m = p"
  using assms by (auto simp: match_prefix_def Let_def)

lemma store_returns: "\<exists>z. store key (Some y) = Some z"
  by (cases "(key, Some y)" rule: store.cases) simp_all

lemma explore_returns:
  "(\<And>child mt rw m. Some child \<in> set cs \<Longrightarrow> match_prefix (prefix child) word = (mt, [], rw) \<Longrightarrow>
      rw \<noteq> [] \<Longrightarrow> \<exists>x. call child rw m = Some x) \<Longrightarrow>
   \<exists>x. explore call word cs res m = Some x"
proof (induction cs arbitrary: res m)
  case Nil
  show ?case by simp
next
  case (Cons c cs)
  have rest: "\<exists>x. explore call word cs res' m' = Some x" for res' m'
    by (rule Cons.IH) (rule Cons.prems, simp_all)
  show ?case
  proof (cases c)
    case None
    then show ?thesis by simp
  next
    case (Some child)
    obtain mt rp rw where mp: "match_prefix (prefix child) word = (mt, rp, rw)"
      by (cases "match_prefix (prefix child) word") auto
    show ?thesis
    proof (cases "rp = [] \<and> rw \<noteq> []")
      case False
      with Some mp rest show ?thesis by auto
    next
      case True
      with Some mp have "\<exists>x. call child rw m = Some x"
        by (intro Cons.prems [of child mt rw m]) simp_all
      then obtain r0 m0 where "call child rw m = Some (r0, m0)" by auto
      with Some mp True rest [of _ m0] show ?thesis
        by (cases r0) auto
    qed
  qed
qed

lemma find_step_returns:
  assumes deleg: "is_leaf n \<Longrightarrow> word \<noteq> [] \<Longrightarrow> map_of (children n) (hd word) = None \<Longrightarrow>
      \<exists>x. RadixNode_find fuel rt rt word (Positional (loop_of la)) m = Some x"
    and calls: "\<And>child mt rw m'.
      map_of (children n) (hd word) = Some child \<or> map_of (children rt) (hd word) = Some child \<Longrightarrow>
      match_prefix (prefix child) word = (mt, [], rw) \<Longrightarrow> rw \<noteq> [] \<Longrightarrow>
      \<exists>x. RadixNode_find fuel rt child rw (Positional (loop_of la)) m' = Some x"
  shows "\<exists>x. RadixNode_find (Suc fuel) rt n word la m = Some x"
proof (cases "map_of m (ident n, word, la)")
  case (Some r)
  then show ?thesis by (simp add: RadixNode_find.simps(2))
next
  case None
  note miss = None
  show ?thesis
  proof (cases "word = []")
    case True
    with miss show ?thesis by (simp add: RadixNode_find.simps(2))
  next
    case False
    show ?thesis
    proof (cases "map_of (children n) (hd word)")
      case None
      show ?thesis
      proof (cases "is_leaf n")
        case True
        from deleg [OF True False None] obtain x
          where "RadixNode_find fuel rt rt word (Positional (loop_of la)) m = Some x" ..
        with miss False None True store_returns [of "(ident n, word, la)" x]
        show ?thesis by (simp add: RadixNode_find.simps(2))
      next
        case False
        with miss \<open>word \<noteq> []\<close> None show ?thesis by (simp add: RadixNode_find.simps(2))
      qed
    next
      case (Some first)
      define cands where "cands = Some first #
          (if is_leaf n \<and> loop_of la then [map_of (children rt) (hd word)] else [])"
      have "\<exists>x. explore (\<lambda>child w. RadixNode_find fuel rt child w (Positional (loop_of la)))
                word cands 0 m = Some x"
      proof (rule explore_returns)
        fix child mt rw m'
        assume "Some child \<in> set cands" and mp: "match_prefix (prefix child) word = (mt, [], rw)"
          and rw: "rw \<noteq> []"
        then have "map_of (children n) (hd word) = Some child \<or>
            map_of (children rt) (hd word) = Some child"
          using Some by (auto simp: cands_def split: if_splits)
        then show "\<exists>x. RadixNode_find fuel rt child rw (Positional (loop_of la)) m' = Some x"
          using mp rw by (rule calls)
      qed
      then obtain x where "explore (\<lambda>child w. RadixNode_find fuel rt child w (Positional (loop_of la)))
                word cands 0 m = Some x" ..
      with miss False Some store_returns [of "(ident n, word, la)" x]
      show ?thesis by (simp add: RadixNode_find.simps(2) cands_def)
    qed
  qed
qed

lemma find_returns:
  assumes rt: "inv_node rt" "\<not> is_leaf rt"
  shows "inv_node n \<Longrightarrow> \<exists>x. RadixNode_find (2 * length word + 2) rt n word la m = Some x"
proof (induction word arbitrary: n la m rule: length_induct)
  case (1 word)
  have shorter: "\<exists>x. RadixNode_find (2 * length word + k) rt child rw la' m' = Some x"
    if "map_of (children n') (hd word) = Some child" and "inv_node n'"
      and "match_prefix (prefix child) word = (mt, [], rw)" and "rw \<noteq> []"
    for child rw la' m' k n' mt
  proof -
    from inv_lookup [OF that(2,1)] have ch: "inv_node child" "prefix child \<noteq> []" by simp_all
    from that(3) have "mt = prefix child" by (rule match_prefix_full)
    with ch(2) that(3) have less: "length rw < length word"
      by (intro match_prefix_shorter [OF that(3)]) simp
    with "1.IH" ch(1) obtain x
      where "RadixNode_find (2 * length rw + 2) rt child rw la' m' = Some x" by blast
    then have "RadixNode_find (2 * length rw + 2 + (2 * length word + k - (2 * length rw + 2)))
        rt child rw la' m' = Some x"
      by (rule RadixNode_find_more_fuel)
    moreover from less
    have "2 * length rw + 2 + (2 * length word + k - (2 * length rw + 2)) = 2 * length word + k"
      by simp
    ultimately have "RadixNode_find (2 * length word + k) rt child rw la' m' = Some x"
      by (simp only:)
    then show ?thesis ..
  qed
  have at_root: "\<exists>x. RadixNode_find (Suc (2 * length word)) rt rt word la' m' = Some x" for la' m'
  proof (rule find_step_returns)
    assume "is_leaf rt"
    with rt(2) show "\<exists>x. RadixNode_find (2 * length word) rt rt word (Positional (loop_of la')) m' = Some x"
      by simp
  next
    fix child mt rw m''
    assume "map_of (children rt) (hd word) = Some child \<or> map_of (children rt) (hd word) = Some child"
      and "match_prefix (prefix child) word = (mt, [], rw)" and "rw \<noteq> []"
    with rt(1) shorter [of rt child mt rw 0]
    show "\<exists>x. RadixNode_find (2 * length word) rt child rw (Positional (loop_of la')) m'' = Some x"
      by auto
  qed
  have "\<exists>x. RadixNode_find (Suc (Suc (2 * length word))) rt n word la m = Some x"
  proof (rule find_step_returns)
    show "\<exists>x. RadixNode_find (Suc (2 * length word)) rt rt word (Positional (loop_of la)) m = Some x"
      by (rule at_root)
  next
    fix child mt rw m'
    assume "map_of (children n) (hd word) = Some child \<or> map_of (children rt) (hd word) = Some child"
      and "match_prefix (prefix child) word = (mt, [], rw)" and "rw \<noteq> []"
    with rt(1) "1.prems" shorter [of n child mt rw 1] shorter [of rt child mt rw 1]
    show "\<exists>x. RadixNode_find (Suc (2 * length word)) rt child rw (Positional (loop_of la)) m' = Some x"
      by auto
  qed
  then show ?case by simp
qed

text \<open>
  With \<^verbatim>\<open>loop\<close> false the only candidate is the child that was found, and no call is made
  with an empty word: a plain lookup of a non-empty word raises nothing.
\<close>

lemma explore_no_raise:
  assumes call: "\<And>child rw m y. rw \<noteq> [] \<Longrightarrow> call child rw m = Some y \<Longrightarrow> \<exists>r. fst y = Inr r"
    and cands: "None \<notin> set cs"
  shows "explore call word cs res m = Some x \<Longrightarrow> \<exists>r. fst x = Inr r"
  using cands
proof (induction cs arbitrary: res m)
  case Nil
  then show ?case by auto
next
  case (Cons c cs)
  from Cons.prems(2) obtain child where c: "c = Some child" and rest: "None \<notin> set cs"
    by (cases c) auto
  obtain mt rp rw where mp: "match_prefix (prefix child) word = (mt, rp, rw)"
    by (cases "match_prefix (prefix child) word") auto
  show ?case
  proof (cases "rp = [] \<and> rw \<noteq> []")
    case False
    with Cons.prems(1) c mp rest show ?thesis
      by (auto dest: Cons.IH split: if_splits)
  next
    case True
    with Cons.prems(1) c mp obtain y where y: "call child rw m = Some y"
      by (cases "call child rw m") auto
    with True obtain r where "fst y = Inr r" by (blast dest: call)
    then obtain m0 where "y = (Inr r, m0)" by (cases y) auto
    with Cons.prems(1) c mp True y have "explore call word cs (res + r) m0 = Some x" by simp
    with rest show ?thesis by (auto dest: Cons.IH)
  qed
qed

lemma find_no_loop_no_raise:
  "\<not> loop_of la \<Longrightarrow> word \<noteq> [] \<Longrightarrow> RadixNode_find fuel rt n word la m = Some x \<Longrightarrow>
   \<exists>r. fst x = Inr r"
proof (induction fuel arbitrary: n word la m x)
  case 0
  then show ?case by simp
next
  case (Suc fuel)
  show ?case
  proof (cases "map_of m (ident n, word, la)")
    case (Some r)
    with Suc.prems show ?thesis by (auto simp: RadixNode_find.simps(2))
  next
    case None
    note miss = None
    define body where "body =
      (case map_of (children n) (hd word) of
         None \<Rightarrow>
           if \<not> is_leaf n then Some (Inr 0, m)
           else RadixNode_find fuel rt rt word (Positional (loop_of la)) m
       | Some first \<Rightarrow>
           explore (\<lambda>child w. RadixNode_find fuel rt child w (Positional (loop_of la)))
             word
             (Some first #
                (if is_leaf n \<and> loop_of la then [map_of (children rt) (hd word)] else []))
             0 m)"
    from Suc.prems miss have st: "store (ident n, word, la) body = Some x"
      by (simp add: RadixNode_find.simps(2) body_def)
    then obtain y where y: "body = Some y" by (blast dest: store_Some)
    have "\<exists>r. fst y = Inr r"
    proof (cases "map_of (children n) (hd word)")
      case None
      with y Suc.prems(1,2) Suc.IH [of "Positional (loop_of la)" word rt m y] show ?thesis
        by (auto simp: body_def split: if_splits)
    next
      case (Some first)
      with y Suc.prems(1)
      have "explore (\<lambda>child w. RadixNode_find fuel rt child w (Positional (loop_of la)))
             word [Some first] 0 m = Some y" by (simp add: body_def)
      then show ?thesis
      proof (rule explore_no_raise [rotated 2])
        show "None \<notin> set [Some first]" by simp
      next
        fix child rw m' y'
        assume "rw \<noteq> []" and "RadixNode_find fuel rt child rw (Positional (loop_of la)) m' = Some y'"
        with Suc.prems(1) show "\<exists>r. fst y' = Inr r"
          by (intro Suc.IH [of "Positional (loop_of la)" rw child m' y']) simp_all
      qed
    qed
    then obtain r m0 where "y = (Inr r, m0)" by (cases y) auto
    with st y show ?thesis by auto
  qed
qed

section \<open>The claims\<close>

subsection \<open>Repeated prefix\<close>

text \<open>
  Claim C1. After adding "a", "aa", "aaa" in that order to an empty trie, \<^verbatim>\<open>is_word\<close> is
  true for "a", "aa" and "aaa" and false for "aaaa" and "aaaaa".

  The first half holds. The second does not: \<^verbatim>\<open>is_word\<close> returns true for "aaaa" and for
  "aaaaa". The search reaches the leaf "a" at depth three with input left and no child for
  it, and line 165 restarts at the root although \<^verbatim>\<open>loop\<close> is false; the branch of line
  168 asks for \<^verbatim>\<open>loop\<close> before it looks at the root.
\<close>

theorem is_word_aaaa:
  "map_option fst (is_word (3 + k) (adds [''a'', ''aa'', ''aaa'']) ''a'') = Some (Inr True) \<and>
   map_option fst (is_word (3 + k) (adds [''a'', ''aa'', ''aaa'']) ''aa'') = Some (Inr True) \<and>
   map_option fst (is_word (3 + k) (adds [''a'', ''aa'', ''aaa'']) ''aaa'') = Some (Inr True) \<and>
   map_option fst (is_word (5 + k) (adds [''a'', ''aa'', ''aaa'']) ''aaaa'') = Some (Inr True) \<and>
   map_option fst (is_word (6 + k) (adds [''a'', ''aa'', ''aaa'']) ''aaaaa'') = Some (Inr True)"
proof (intro conjI is_word_value)
  show "map_option fst (is_word 3 (adds [''a'', ''aa'', ''aaa'']) ''a'') = Some (Inr True)"
    by code_simp
  show "map_option fst (is_word 3 (adds [''a'', ''aa'', ''aaa'']) ''aa'') = Some (Inr True)"
    by code_simp
  show "map_option fst (is_word 3 (adds [''a'', ''aa'', ''aaa'']) ''aaa'') = Some (Inr True)"
    by code_simp
  show "map_option fst (is_word 5 (adds [''a'', ''aa'', ''aaa'']) ''aaaa'') = Some (Inr True)"
    by code_simp
  show "map_option fst (is_word 6 (adds [''a'', ''aa'', ''aaa'']) ''aaaaa'') = Some (Inr True)"
    by code_simp
qed

subsection \<open>Adding a word twice\<close>

text \<open>
  Claim C2. After \<^verbatim>\<open>add(w)\<close>, a second \<^verbatim>\<open>add(w)\<close> changes neither \<^verbatim>\<open>size()\<close> nor any
  result of \<^verbatim>\<open>is_word\<close>.

  The code does otherwise. The second call comes to the node of \<open>w\<close> through
  \<^verbatim>\<open>child.add(matching)\<close>; the node is a leaf already, so the test of case 1 fails and
  case 2 hangs a new node with the node's own prefix below it. On the empty trie
  \<^verbatim>\<open>add("a")\<close> twice takes the size from 2 to 3; after "ab" and "a", the second
  \<^verbatim>\<open>add("a")\<close> turns \<^verbatim>\<open>is_word("aab")\<close> from true to false.
\<close>

theorem add_twice_grows:
  "size_trie (adds [''a'']) = 2 \<and> size_trie (adds [''a'', ''a'']) = 3 \<and>
   root (adds [''a'', ''a'']) =
     RadixNode 0 [] False [(CHR ''a'', RadixNode 1 ''a'' True [(CHR ''a'', RadixNode 2 ''a'' True [])])] \<and>
   map_option fst (is_word (4 + k) (adds [''ab'', ''a'']) ''aab'') = Some (Inr True) \<and>
   map_option fst (is_word (4 + k) (adds [''ab'', ''a'', ''a'']) ''aab'') = Some (Inr False)"
proof (intro conjI is_word_value)
  show "size_trie (adds [''a'']) = 2" by code_simp
  show "size_trie (adds [''a'', ''a'']) = 3" by code_simp
  show "root (adds [''a'', ''a'']) =
     RadixNode 0 [] False [(CHR ''a'', RadixNode 1 ''a'' True [(CHR ''a'', RadixNode 2 ''a'' True [])])]"
    by code_simp
  show "map_option fst (is_word 4 (adds [''ab'', ''a'']) ''aab'') = Some (Inr True)"
    by code_simp
  show "map_option fst (is_word 4 (adds [''ab'', ''a'', ''a'']) ''aab'') = Some (Inr False)"
    by code_simp
qed

subsection \<open>Termination\<close>

text \<open>
  When the root is a leaf and no child of the root is keyed by the first character of the
  word, \<^verbatim>\<open>find\<close> at the root calls \<^verbatim>\<open>self.root.find(word, loop)\<close>, the same call again:
  no amount of fuel is enough.
\<close>

lemma find_leaf_root_diverges:
  assumes "is_leaf rt" and "word \<noteq> []" and "map_of (children rt) (hd word) = None"
    and "\<And>la. map_of m (ident rt, word, la) = None"
  shows "RadixNode_find fuel rt rt word la m = None"
proof (induction fuel arbitrary: la)
  case 0
  show ?case by simp
next
  case (Suc fuel)
  have "RadixNode_find fuel rt rt word (Positional (loop_of la)) m = None"
    by (rule Suc.IH)
  with assms show ?case by (simp add: RadixNode_find.simps(2))
qed

text \<open>
  Claim C3. \<^verbatim>\<open>add(w)\<close> and \<^verbatim>\<open>find(w, wrap)\<close> terminate on every trie built by \<^verbatim>\<open>add\<close>,
  also when the root is a leaf and the first character of \<open>w\<close> keys no child.

  \<open>RadixNode_add\<close> is a total function, its recursion is well-founded: \<^verbatim>\<open>add\<close> terminates.
  \<^verbatim>\<open>find\<close> returns or raises whenever the root is no leaf (lemma \<open>find_returns\<close>). It
  does not when the root is one: \<^verbatim>\<open>add("")\<close> on the empty trie marks the root as a leaf,
  and then \<^verbatim>\<open>is_word("x")\<close>, \<^verbatim>\<open>is_sentence("x")\<close> and \<^verbatim>\<open>possible_sentences("x")\<close> have
  no outcome for any depth of recursion; the same with a further word "a" in the trie and
  the query "b".
\<close>

theorem find_after_empty_word_diverges:
  "is_word fuel (adds [[]]) ''x'' = None \<and>
   is_sentence fuel (adds [[]]) ''x'' = None \<and>
   possible_sentences fuel (adds [[]]) ''x'' = None \<and>
   is_word fuel (adds [[], ''a'']) ''b'' = None"
proof -
  have t1: "adds [[]] = \<lparr>root = RadixNode 0 [] True [], fresh = 1, memo = []\<rparr>"
    by code_simp
  have t2: "adds [[], ''a''] =
      \<lparr>root = RadixNode 0 [] True [(CHR ''a'', RadixNode 1 ''a'' True [])], fresh = 2, memo = []\<rparr>"
    by code_simp
  have "RadixNode_find fuel (RadixNode 0 [] True []) (RadixNode 0 [] True []) ''x'' la [] = None" for la
    by (rule find_leaf_root_diverges) simp_all
  moreover have "RadixNode_find fuel (RadixNode 0 [] True [(CHR ''a'', RadixNode 1 ''a'' True [])])
       (RadixNode 0 [] True [(CHR ''a'', RadixNode 1 ''a'' True [])]) ''b'' la [] = None" for la
    by (rule find_leaf_root_diverges) simp_all
  ultimately show ?thesis
    by (simp add: t1 t2 is_word_def is_sentence_def possible_sentences_def)
qed

subsection \<open>The assertion of \<^verbatim>\<open>find\<close>\<close>

text \<open>
  Claim C4. On a trie built by \<^verbatim>\<open>add\<close>, \<^verbatim>\<open>find(w, wrap)\<close> for a non-empty \<open>w\<close> returns a
  count and raises nothing; the assertion \<^verbatim>\<open>child is not None\<close> holds also for the
  candidate taken from \<^verbatim>\<open>root.children\<close>.

  With \<^verbatim>\<open>loop\<close> false the search for a non-empty word raises nothing (lemma
  \<open>find_no_loop_no_raise\<close>). With \<^verbatim>\<open>loop\<close> true the assertion fails: after "ab" and "abc" the node "ab" is a leaf with a child under
  \<open>c\<close>, the root has no child under \<open>c\<close>, so the second candidate is \<^verbatim>\<open>None\<close>, and
  \<^verbatim>\<open>possible_sentences("abc")\<close> and \<^verbatim>\<open>is_sentence("abc")\<close> raise \<^verbatim>\<open>AssertionError\<close>.
\<close>

theorem possible_sentences_assertion_fails:
  "map_option fst (possible_sentences (2 + k) (adds [''ab'', ''abc'']) ''abc'') = Some (Inl AssertionError) \<and>
   map_option fst (is_sentence (2 + k) (adds [''ab'', ''abc'']) ''abc'') = Some (Inl AssertionError) \<and>
   root (adds [''ab'', ''abc'']) =
     RadixNode 0 [] False [(CHR ''a'', RadixNode 1 ''ab'' True [(CHR ''c'', RadixNode 2 ''c'' True [])])]"
proof (intro conjI possible_sentences_value is_sentence_value)
  show "map_option fst (possible_sentences 2 (adds [''ab'', ''abc'']) ''abc'') = Some (Inl AssertionError)"
    by code_simp
  show "map_option fst (is_sentence 2 (adds [''ab'', ''abc'']) ''abc'') = Some (Inl AssertionError)"
    by code_simp
  show "root (adds [''ab'', ''abc'']) =
     RadixNode 0 [] False [(CHR ''a'', RadixNode 1 ''ab'' True [(CHR ''c'', RadixNode 2 ''c'' True [])])]"
    by code_simp
qed

subsection \<open>The empty word\<close>

text \<open>
  \<^verbatim>\<open>find\<close> has no test for the empty word: its first statement subscripts \<^verbatim>\<open>word[0]\<close>.
  No call for the empty word is ever answered from the cache, since a call that raises
  stores nothing. So at every node the call raises \<^verbatim>\<open>IndexError\<close>, and so do the three
  queries in every reachable state.
\<close>

lemma queries_empty_word:
  assumes "reachable t"
  shows "is_word (Suc fuel) t [] = Some (Inl IndexError, t)"
    and "is_sentence (Suc fuel) t [] = Some (Inl IndexError, t)"
    and "possible_sentences (Suc fuel) t [] = Some (Inl IndexError, t)"
  using reachable_inv [OF assms]
  by (simp_all add: empty_word_IndexError is_word_def is_sentence_def possible_sentences_def)

text \<open>
  Claim C5. \<^verbatim>\<open>find("", wrap)\<close> at a node returns 1 if the node is a leaf and 0 otherwise,
  so that \<^verbatim>\<open>is_word("")\<close>, \<^verbatim>\<open>is_sentence("")\<close> and \<^verbatim>\<open>possible_sentences("")\<close> return
  without error and tell whether the root is a leaf.

  The code does otherwise. \<^verbatim>\<open>add("")\<close> on the empty trie stores the empty word: case 1
  marks the root as a leaf. The loop of \<^verbatim>\<open>find\<close> counts an exhausted word as 1 at a leaf
  and 0 elsewhere, but the call itself starts with \<^verbatim>\<open>word[0]\<close>: \<^verbatim>\<open>is_word("")\<close>,
  \<^verbatim>\<open>is_sentence("")\<close> and \<^verbatim>\<open>possible_sentences("")\<close> raise \<^verbatim>\<open>IndexError\<close>, on the trie that
  holds the empty word as on the empty trie.
\<close>

theorem empty_query_raises:
  "is_leaf (root (adds [[]])) \<and>
   map_option fst (is_word (1 + k) (adds [[]]) []) = Some (Inl IndexError) \<and>
   map_option fst (is_sentence (1 + k) (adds [[]]) []) = Some (Inl IndexError) \<and>
   map_option fst (possible_sentences (1 + k) (adds [[]]) []) = Some (Inl IndexError) \<and>
   \<not> is_leaf (root (adds [])) \<and>
   map_option fst (is_word (1 + k) (adds []) []) = Some (Inl IndexError) \<and>
   map_option fst (possible_sentences (1 + k) (adds []) []) = Some (Inl IndexError)"
proof (intro conjI is_word_value is_sentence_value possible_sentences_value)
  show "is_leaf (root (adds [[]]))" by code_simp
  show "map_option fst (is_word 1 (adds [[]]) []) = Some (Inl IndexError)" by code_simp
  show "map_option fst (is_sentence 1 (adds [[]]) []) = Some (Inl IndexError)" by code_simp
  show "map_option fst (possible_sentences 1 (adds [[]]) []) = Some (Inl IndexError)"
    by code_simp
  show "\<not> is_leaf (root (adds []))" by code_simp
  show "map_option fst (is_word 1 (adds []) []) = Some (Inl IndexError)" by code_simp
  show "map_option fst (possible_sentences 1 (adds []) []) = Some (Inl IndexError)"
    by code_simp
qed

subsection \<open>The fallback to the root\<close>

lemma memo_foldl_after_add: "memo (foldl after_add t words) = memo t"
  by (induction words arbitrary: t) (simp_all add: memo_after_add)

lemma memo_adds: "memo (adds words) = []"
  by (simp add: adds_def memo_foldl_after_add RadixTrie_init_def)

text \<open>
  Claim C6. At a node with no child for the first character of the non-empty input,
  \<^verbatim>\<open>find\<close> returns what \<^verbatim>\<open>root.find(w, wrap)\<close> returns if the node is a leaf and 0
  otherwise, whatever the wrap flag is; so with the words "a" and "b", \<^verbatim>\<open>is_word("ab")\<close>
  is decided by this fallback.

  This is what the body of \<^verbatim>\<open>find\<close> does, but a call that finds its key in the cache
  does not run the body. The statement holds for every call that misses the cache, for
  every way \<open>la\<close> of passing \<^verbatim>\<open>loop\<close>: the value of the call is the value of the call at
  the root, one level deeper. It holds in particular for the first call on a trie that
  has seen calls of \<^verbatim>\<open>add\<close> only, whose cache is empty. With "a" and "b" in the trie,
  \<^verbatim>\<open>is_word("ab")\<close> is true, and \<^verbatim>\<open>is_word("c")\<close> is false at the root, which is no leaf.
\<close>

theorem find_falls_back_to_root:
  "(word \<noteq> [] \<and> map_of (children n) (hd word) = None \<and> map_of m (ident n, word, la) = None \<longrightarrow>
      map_option fst (RadixNode_find (Suc fuel) rt n word la m) =
        (if is_leaf n
         then map_option fst (RadixNode_find fuel rt rt word (Positional (loop_of la)) m)
         else Some (Inr 0))) \<and>
   (word \<noteq> [] \<and> map_of (children n) (hd word) = None \<longrightarrow>
      map_option fst (RadixNode_find (Suc fuel) (root (adds words)) n word la (memo (adds words))) =
        (if is_leaf n
         then map_option fst (RadixNode_find fuel (root (adds words)) (root (adds words)) word
                (Positional (loop_of la)) (memo (adds words)))
         else Some (Inr 0))) \<and>
   map_option fst (is_word (3 + k) (adds [''a'', ''b'']) ''ab'') = Some (Inr True) \<and>
   map_option fst (is_word (1 + k) (adds [''a'', ''b'']) ''c'') = Some (Inr False)"
proof (intro conjI impI is_word_value)
  assume "word \<noteq> [] \<and> map_of (children n) (hd word) = None \<and> map_of m (ident n, word, la) = None"
  then show "map_option fst (RadixNode_find (Suc fuel) rt n word la m) =
        (if is_leaf n
         then map_option fst (RadixNode_find fuel rt rt word (Positional (loop_of la)) m)
         else Some (Inr 0))"
    by (simp add: RadixNode_find.simps(2))
next
  assume "word \<noteq> [] \<and> map_of (children n) (hd word) = None"
  then show "map_option fst
        (RadixNode_find (Suc fuel) (root (adds words)) n word la (memo (adds words))) =
        (if is_leaf n
         then map_option fst (RadixNode_find fuel (root (adds words)) (root (adds words)) word
                (Positional (loop_of la)) (memo (adds words)))
         else Some (Inr 0))"
    by (simp add: RadixNode_find.simps(2) memo_adds)
next
  show "map_option fst (is_word 3 (adds [''a'', ''b'']) ''ab'') = Some (Inr True)"
    by code_simp
next
  show "map_option fst (is_word 1 (adds [''a'', ''b'']) ''c'') = Some (Inr False)"
    by code_simp
qed

text \<open>
  The statement at the node "a" of the trie of "a" and "b" with the input "b" and an empty
  cache: the call hands over to the root, which finds the word "b".
\<close>

theorem find_falls_back_to_root_witness:
  "root (adds [''a'', ''b'']) =
     RadixNode 0 [] False [(CHR ''a'', RadixNode 1 ''a'' True []), (CHR ''b'', RadixNode 2 ''b'' True [])] \<and>
   memo (adds [''a'', ''b'']) = [] \<and>
   ''b'' \<noteq> [] \<and> map_of (children (RadixNode 1 ''a'' True [])) (hd ''b'') = None \<and>
   map_of [] (ident (RadixNode 1 ''a'' True []), ''b'', Positional False) = None \<and>
   map_option fst (RadixNode_find (Suc 1) (root (adds [''a'', ''b''])) (RadixNode 1 ''a'' True [])
       ''b'' (Positional False) []) =
   map_option fst (RadixNode_find 1 (root (adds [''a'', ''b''])) (root (adds [''a'', ''b'']))
       ''b'' (Positional False) []) \<and>
   map_option fst (RadixNode_find (Suc 1) (root (adds [''a'', ''b''])) (RadixNode 1 ''a'' True [])
       ''b'' (Positional False) (memo (adds [''a'', ''b'']))) =
   map_option fst (RadixNode_find 1 (root (adds [''a'', ''b''])) (root (adds [''a'', ''b'']))
       ''b'' (Positional False) (memo (adds [''a'', ''b'']))) \<and>
   map_option fst (RadixNode_find 1 (root (adds [''a'', ''b''])) (root (adds [''a'', ''b'']))
       ''b'' (Positional False) []) = Some (Inr 1)"
proof -
  have t: "root (adds [''a'', ''b'']) =
     RadixNode 0 [] False [(CHR ''a'', RadixNode 1 ''a'' True []), (CHR ''b'', RadixNode 2 ''b'' True [])]"
    by code_simp
  have e: "memo (adds [''a'', ''b'']) = []"
    by code_simp
  have v: "map_option fst (RadixNode_find 1 (root (adds [''a'', ''b''])) (root (adds [''a'', ''b'']))
       ''b'' (Positional False) []) = Some (Inr 1)"
    by code_simp
  note inst = find_falls_back_to_root [where word = "''b''" and n = "RadixNode 1 ''a'' True []"
      and m = "[]" and la = "Positional False" and fuel = 1 and rt = "root (adds [''a'', ''b''])"
      and words = "[''a'', ''b'']"]
  from inst
  have "map_option fst (RadixNode_find (Suc 1) (root (adds [''a'', ''b''])) (RadixNode 1 ''a'' True [])
       ''b'' (Positional False) []) =
   map_option fst (RadixNode_find 1 (root (adds [''a'', ''b''])) (root (adds [''a'', ''b'']))
       ''b'' (Positional False) [])"
    by simp
  moreover from inst
  have "map_option fst (RadixNode_find (Suc 1) (root (adds [''a'', ''b''])) (RadixNode 1 ''a'' True [])
       ''b'' (Positional False) (memo (adds [''a'', ''b'']))) =
   map_option fst (RadixNode_find 1 (root (adds [''a'', ''b''])) (root (adds [''a'', ''b'']))
       ''b'' (Positional False) (memo (adds [''a'', ''b''])))"
    by simp
  ultimately show ?thesis using t e v by simp
qed

text \<open>
  Without the condition on the cache the claim fails. Add "ab" and "ac"; \<^verbatim>\<open>is_word("ad")\<close>
  is false and stores 0 for the node "a" (no leaf yet) and the input "d"; add "a" and
  "d". Now the node "a" is a leaf with no child under \<open>d\<close>, and \<^verbatim>\<open>root.find("d", False)\<close>
  returns 1, but \<^verbatim>\<open>find("d", False)\<close> at the node "a" returns the stored 0.
\<close>

theorem find_falls_back_to_root_counterexample:
  "is_word 2 (adds [''ab'', ''ac'']) ''ad'' =
     Some (Inr False,
       adds [''ab'', ''ac'']\<lparr>memo := [((2, ''d'', Positional False), 0), ((0, ''ad'', Omitted), 0)]\<rparr>) \<and>
   after_add (after_add
       (adds [''ab'', ''ac'']\<lparr>memo := [((2, ''d'', Positional False), 0), ((0, ''ad'', Omitted), 0)]\<rparr>)
       ''a'') ''d'' =
     \<lparr>root = RadixNode 0 [] False
        [(CHR ''a'', RadixNode 2 ''a'' True
            [(CHR ''b'', RadixNode 1 ''b'' True []), (CHR ''c'', RadixNode 3 ''c'' True [])]),
         (CHR ''d'', RadixNode 4 ''d'' True [])],
      fresh = 5,
      memo = [((2, ''d'', Positional False), 0), ((0, ''ad'', Omitted), 0)]\<rparr> \<and>
   is_leaf (RadixNode 2 ''a'' True
      [(CHR ''b'', RadixNode 1 ''b'' True []), (CHR ''c'', RadixNode 3 ''c'' True [])]) \<and>
   map_of (children (RadixNode 2 ''a'' True
      [(CHR ''b'', RadixNode 1 ''b'' True []), (CHR ''c'', RadixNode 3 ''c'' True [])])) (hd ''d'') = None \<and>
   map_option fst (RadixNode_find 2
      (RadixNode 0 [] False
        [(CHR ''a'', RadixNode 2 ''a'' True
            [(CHR ''b'', RadixNode 1 ''b'' True []), (CHR ''c'', RadixNode 3 ''c'' True [])]),
         (CHR ''d'', RadixNode 4 ''d'' True [])])
      (RadixNode 2 ''a'' True
        [(CHR ''b'', RadixNode 1 ''b'' True []), (CHR ''c'', RadixNode 3 ''c'' True [])])
      ''d'' (Positional False)
      [((2, ''d'', Positional False), 0), ((0, ''ad'', Omitted), 0)]) = Some (Inr 0) \<and>
   map_option fst (RadixNode_find 2
      (RadixNode 0 [] False
        [(CHR ''a'', RadixNode 2 ''a'' True
            [(CHR ''b'', RadixNode 1 ''b'' True []), (CHR ''c'', RadixNode 3 ''c'' True [])]),
         (CHR ''d'', RadixNode 4 ''d'' True [])])
      (RadixNode 0 [] False
        [(CHR ''a'', RadixNode 2 ''a'' True
            [(CHR ''b'', RadixNode 1 ''b'' True []), (CHR ''c'', RadixNode 3 ''c'' True [])]),
         (CHR ''d'', RadixNode 4 ''d'' True [])])
      ''d'' (Positional False)
      [((2, ''d'', Positional False), 0), ((0, ''ad'', Omitted), 0)]) = Some (Inr 1)"
  by code_simp

subsection \<open>Segmentation counting\<close>

text \<open>
  Claim C7. After adding exactly the words "a", "ab", "b" to an empty trie,
  \<^verbatim>\<open>possible_sentences("ab")\<close> returns 2 and \<^verbatim>\<open>is_sentence("ab")\<close> returns true. The
  statement is proved for each of the six orders in which the three words can be added,
  and for every bound \<open>2 + k\<close> on the depth of recursion.
\<close>

theorem possible_sentences_a_ab_b:
  "list_all (\<lambda>ws. map_option fst (possible_sentences (2 + k) (adds ws) ''ab'') = Some (Inr 2)
                \<and> map_option fst (is_sentence (2 + k) (adds ws) ''ab'') = Some (Inr True))
     [[''a'', ''ab'', ''b''], [''a'', ''b'', ''ab''], [''ab'', ''a'', ''b''],
      [''ab'', ''b'', ''a''], [''b'', ''a'', ''ab''], [''b'', ''ab'', ''a'']]"
proof -
  have "list_all (\<lambda>ws. map_option fst (possible_sentences 2 (adds ws) ''ab'') = Some (Inr 2)
                \<and> map_option fst (is_sentence 2 (adds ws) ''ab'') = Some (Inr True))
     [[''a'', ''ab'', ''b''], [''a'', ''b'', ''ab''], [''ab'', ''a'', ''b''],
      [''ab'', ''b'', ''a''], [''b'', ''a'', ''ab''], [''b'', ''ab'', ''a'']]"
    by code_simp
  then show ?thesis
    by (rule list.pred_mono_strong)
      (elim conjE, intro conjI possible_sentences_value is_sentence_value)
qed

subsection \<open>The cache is never invalidated\<close>

text \<open>
  Claim C8. The results of \<^verbatim>\<open>find\<close> are cached per node, word and wrap flag, no \<^verbatim>\<open>add\<close>
  clears the cache, and so a query repeated after an \<^verbatim>\<open>add\<close> can return the count from
  before the \<^verbatim>\<open>add\<close>.

  A call that hits the cache returns the stored count, whatever the tree is, and \<^verbatim>\<open>add\<close>
  leaves the cache as it is. The sequence: add "a"; \<^verbatim>\<open>possible_sentences("b")\<close> is 0 and
  is stored under the root; add "b"; \<^verbatim>\<open>possible_sentences("b")\<close> is 0 again, where the
  tree, asked with an empty cache, gives 1.
\<close>

theorem find_cache_goes_stale:
  "(map_of m (ident n, word, la) = Some r \<longrightarrow>
      RadixNode_find (Suc fuel) rt n word la m = Some (Inr r, m)) \<and>
   memo (after_add t word) = memo t \<and>
   possible_sentences (1 + k) (adds [''a'']) ''b'' =
     Some (Inr 0, adds [''a'']\<lparr>memo := [((0, ''b'', Keyword True), 0)]\<rparr>) \<and>
   possible_sentences (1 + k) (after_add (adds [''a'']\<lparr>memo := [((0, ''b'', Keyword True), 0)]\<rparr>) ''b'') ''b'' =
     Some (Inr 0, after_add (adds [''a'']\<lparr>memo := [((0, ''b'', Keyword True), 0)]\<rparr>) ''b'') \<and>
   map_option fst (possible_sentences (1 + k)
       (after_add (adds [''a'']\<lparr>memo := [((0, ''b'', Keyword True), 0)]\<rparr>) ''b''\<lparr>memo := []\<rparr>) ''b'') =
     Some (Inr 1)"
proof (intro conjI impI possible_sentences_more_fuel possible_sentences_value)
  assume "map_of m (ident n, word, la) = Some r"
  then show "RadixNode_find (Suc fuel) rt n word la m = Some (Inr r, m)"
    by (simp add: RadixNode_find.simps(2))
next
  show "memo (after_add t word) = memo t" by (rule memo_after_add)
next
  show "possible_sentences 1 (adds [''a'']) ''b'' =
     Some (Inr 0, adds [''a'']\<lparr>memo := [((0, ''b'', Keyword True), 0)]\<rparr>)"
    by code_simp
next
  show "possible_sentences 1 (after_add (adds [''a'']\<lparr>memo := [((0, ''b'', Keyword True), 0)]\<rparr>) ''b'') ''b'' =
     Some (Inr 0, after_add (adds [''a'']\<lparr>memo := [((0, ''b'', Keyword True), 0)]\<rparr>) ''b'')"
    by code_simp
next
  show "map_option fst (possible_sentences 1
       (after_add (adds [''a'']\<lparr>memo := [((0, ''b'', Keyword True), 0)]\<rparr>) ''b''\<lparr>memo := []\<rparr>) ''b'') =
     Some (Inr 1)"
    by code_simp
qed

text \<open>
  The statement at the root of the trie of "b" with the stale entry in the cache: the call
  returns the stored 0, and 1 with an empty cache.
\<close>

theorem find_cache_goes_stale_witness:
  "map_of [((0, ''b'', Keyword True), 0)] (ident (RadixNode 0 [] False [(CHR ''b'', RadixNode 1 ''b'' True [])]), ''b'', Keyword True) = Some 0 \<and>
   RadixNode_find (Suc 0) (RadixNode 0 [] False [(CHR ''b'', RadixNode 1 ''b'' True [])])
     (RadixNode 0 [] False [(CHR ''b'', RadixNode 1 ''b'' True [])]) ''b'' (Keyword True)
     [((0, ''b'', Keyword True), 0)] = Some (Inr 0, [((0, ''b'', Keyword True), 0)]) \<and>
   RadixNode_find (Suc 0) (RadixNode 0 [] False [(CHR ''b'', RadixNode 1 ''b'' True [])])
     (RadixNode 0 [] False [(CHR ''b'', RadixNode 1 ''b'' True [])]) ''b'' (Keyword True)
     [] = Some (Inr 1, [((0, ''b'', Keyword True), 1)])"
proof -
  have hit: "map_of [((0, ''b'', Keyword True), 0)]
      (ident (RadixNode 0 [] False [(CHR ''b'', RadixNode 1 ''b'' True [])]), ''b'', Keyword True) = Some (0::int)"
    by simp
  have fresh: "RadixNode_find (Suc 0) (RadixNode 0 [] False [(CHR ''b'', RadixNode 1 ''b'' True [])])
     (RadixNode 0 [] False [(CHR ''b'', RadixNode 1 ''b'' True [])]) ''b'' (Keyword True)
     [] = Some (Inr 1, [((0, ''b'', Keyword True), 1)])"
    by code_simp
  from hit fresh
    find_cache_goes_stale [of "[((0, ''b'', Keyword True), 0)]"
      "RadixNode 0 [] False [(CHR ''b'', RadixNode 1 ''b'' True [])]" "''b''" "Keyword True" 0 0
      "RadixNode 0 [] False [(CHR ''b'', RadixNode 1 ''b'' True [])]"]
  show ?thesis by simp
qed

subsection \<open>Insertion order\<close>

text \<open>
  Claim C9. The words of a finite set, added in any two orders, give tries with the same
  results of \<^verbatim>\<open>is_word\<close>.

  The code does otherwise for the set of "abc" and "abab". Adding "abab" after "abc"
  splits the node "abc" at "ab", and the call \<^verbatim>\<open>child.add("ab")\<close> of case 4 on the new
  node "ab" meets case 1, since case 4 passes no \<^verbatim>\<open>is_repeating_prefix\<close>: the node "ab"
  becomes a leaf and "abab" gets no node. In the other order "ab" is no leaf. So
  \<^verbatim>\<open>is_word("ab")\<close> is true in one order and false in the other.
\<close>

theorem insertion_order_matters:
  "map_option fst (is_word (1 + k) (adds [''abc'', ''abab'']) ''ab'') = Some (Inr True) \<and>
   map_option fst (is_word (1 + k) (adds [''abab'', ''abc'']) ''ab'') = Some (Inr False) \<and>
   root (adds [''abc'', ''abab'']) =
     RadixNode 0 [] False [(CHR ''a'', RadixNode 2 ''ab'' True [(CHR ''c'', RadixNode 1 ''c'' True [])])] \<and>
   root (adds [''abab'', ''abc'']) =
     RadixNode 0 [] False [(CHR ''a'', RadixNode 2 ''ab'' False
        [(CHR ''a'', RadixNode 1 ''ab'' True []), (CHR ''c'', RadixNode 3 ''c'' True [])])]"
proof (intro conjI is_word_value)
  show "map_option fst (is_word 1 (adds [''abc'', ''abab'']) ''ab'') = Some (Inr True)"
    by code_simp
  show "map_option fst (is_word 1 (adds [''abab'', ''abc'']) ''ab'') = Some (Inr False)"
    by code_simp
  show "root (adds [''abc'', ''abab'']) =
     RadixNode 0 [] False [(CHR ''a'', RadixNode 2 ''ab'' True [(CHR ''c'', RadixNode 1 ''c'' True [])])]"
    by code_simp
  show "root (adds [''abab'', ''abc'']) =
     RadixNode 0 [] False [(CHR ''a'', RadixNode 2 ''ab'' False
        [(CHR ''a'', RadixNode 1 ''ab'' True []), (CHR ''c'', RadixNode 3 ''c'' True [])])]"
    by code_simp
qed

subsection \<open>The structure of every trie\<close>

text \<open>
  Claim C10. Every sequence of \<^verbatim>\<open>add\<close> calls keeps the structure: in every node, each key
  of \<^verbatim>\<open>children\<close> is the first character of that child's prefix, so that no two children
  share a first character; the prefix of the root is empty and the prefix of every other
  node is not.
\<close>

theorem adds_keep_structure: "trie_inv (adds words)"
  unfolding adds_def by (rule foldl_after_add_inv) (simp add: trie_inv_def RadixTrie_init_def)

end
